theory Spec2Isabelle
  imports Main "HOL-Library.Word"
begin

unbundle bit_operations_syntax

section \<open>Errors\<close>

text \<open>
  The C++ code has no error returns. What can go wrong is an \<^verbatim>\<open>assert\<close> that fails
  (fatal), and undefined behaviour: an array subscript outside the array, a signed
  multiplication that overflows, a remainder by zero. Each is a value of \<open>error\<close>.
\<close>

datatype error =
    AssertionFailed
  | SignedOverflow
  | OutOfBounds int
  | DivisionByZero

section \<open>The contention manager (ContentionManager.cc)\<close>

subsection \<open>Data\<close>

text \<open>
  The macros \<^verbatim>\<open>MAX_TS\<close>, \<^verbatim>\<open>TS_THRESHOLD\<close>, \<^verbatim>\<open>SUCC_ABORTS_MAX\<close> and
  \<^verbatim>\<open>WAIT_CYCLES_MULTIPLICATOR\<close> come from ContentionManager.hh. They are parameters
  here, each with the value it has after conversion to \<^verbatim>\<open>uint128_t\<close>, the type it is
  compared with, assigned to or multiplied by.
\<close>

record cm_config =
  MAX_TS :: "128 word"
  TS_THRESHOLD :: "128 word"
  SUCC_ABORTS_MAX :: "128 word"
  WAIT_CYCLES_MULTIPLICATOR :: "128 word"

text \<open>
  The static fields of \<^verbatim>\<open>ContentionManager\<close>: the global counter \<^verbatim>\<open>ts\<close> and six
  arrays \<^verbatim>\<open>uint128_t x[128]\<close>.
\<close>

record cm_state =
  ts :: "64 word"
  aborted :: "128 word list"
  timestamp :: "128 word list"
  write_set_size :: "128 word list"
  abort_count :: "128 word list"
  version :: "128 word list"
  seed :: "128 word list"

text \<open>The declared size of each array.\<close>

definition cm_slots :: nat where
  "cm_slots = 128"

definition cm_wf :: "cm_state \<Rightarrow> bool" where
  "cm_wf s \<longleftrightarrow>
     length (aborted s) = cm_slots \<and> length (timestamp s) = cm_slots \<and>
     length (write_set_size s) = cm_slots \<and> length (abort_count s) = cm_slots \<and>
     length (version s) = cm_slots \<and> length (seed s) = cm_slots"

text \<open>The static initialisers: everything is zero when the process starts.\<close>

definition cm_init :: cm_state where
  "cm_init = \<lparr> ts = 0,
      aborted = replicate cm_slots 0, timestamp = replicate cm_slots 0,
      write_set_size = replicate cm_slots 0, abort_count = replicate cm_slots 0,
      version = replicate cm_slots 0, seed = replicate cm_slots 0 \<rparr>"

text \<open>
  What the operations read of a \<^verbatim>\<open>Transaction\<close>: \<^verbatim>\<open>tx->threadid()\<close>, stored in an
  \<^verbatim>\<open>int\<close>, and \<^verbatim>\<open>tx->is_restarted()\<close>.
\<close>

record transaction =
  threadid :: "32 word"
  is_restarted :: bool

subsection \<open>The slot of a thread\<close>

text \<open>
  \<^verbatim>\<open>int threadid = tx->threadid(); threadid *= 4;\<close> followed by subscripts
  \<^verbatim>\<open>x[threadid]\<close> into arrays of 128 elements. The \<^verbatim>\<open>int\<close> is read with \<open>sint\<close>;
  a product outside the range of \<^verbatim>\<open>int\<close> and a subscript outside the array are
  undefined behaviour in C++ and errors here.
\<close>

definition slot_of :: "32 word \<Rightarrow> error + nat" where
  "slot_of tid =
     (let i = sint tid * 4 in
      if i < - (2 ^ 31) \<or> 2 ^ 31 \<le> i then Inl SignedOverflow
      else if i < 0 \<or> int cm_slots \<le> i then Inl (OutOfBounds i)
      else Inr (nat i))"

subsection \<open>Primitives\<close>

text \<open>
  Modelled from the spec: \<^verbatim>\<open>fetch_and_add\<close> (compiler.hh) is not among the sources.
  It is the atomic fetch-and-add: one step that returns the old value and leaves
  \<open>x + d\<close> in memory (modulo the width). The builtin \<^verbatim>\<open>__sync_fetch_and_add\<close> of
  EagerVersions.hh does the same.
\<close>

definition fetch_and_add :: "'a::len word \<Rightarrow> 'a word \<Rightarrow> 'a word \<times> 'a word" where
  "fetch_and_add x d = (x, x + d)"

subsection \<open>Operations\<close>

text \<open>
  \<^verbatim>\<open>TXP_INCREMENT\<close> bumps a profiling counter that none of the operations reads;
  it is left out.
\<close>

definition on_write :: "cm_config \<Rightarrow> cm_state \<Rightarrow> transaction \<Rightarrow> error + cm_state" where
  "on_write cfg s tx =
     (case slot_of (threadid tx) of
        Inl e \<Rightarrow> Inl e
      | Inr i \<Rightarrow>
          let s1 = s\<lparr>write_set_size := (write_set_size s)[i := write_set_size s ! i + 1]\<rparr>
          in if timestamp s1 ! i = MAX_TS cfg \<and> write_set_size s1 ! i = TS_THRESHOLD cfg
             then (case fetch_and_add (ts s1) 1 of
                     (old, new) \<Rightarrow>
                       Inr (s1\<lparr>ts := new, timestamp := (timestamp s1)[i := ucast old]\<rparr>))
             else Inr s1)"

definition start :: "cm_config \<Rightarrow> cm_state \<Rightarrow> transaction \<Rightarrow> error + cm_state" where
  "start cfg s tx =
     (case slot_of (threadid tx) of
        Inl e \<Rightarrow> Inl e
      | Inr i \<Rightarrow>
          if is_restarted tx
          then Inr (s\<lparr>timestamp := (timestamp s)[i := MAX_TS cfg],
                      aborted := (aborted s)[i := 0],
                      write_set_size := (write_set_size s)[i := 0]\<rparr>)
          else Inr (s\<lparr>timestamp := (timestamp s)[i := MAX_TS cfg],
                      aborted := (aborted s)[i := 0],
                      write_set_size := (write_set_size s)[i := 0],
                      abort_count := (abort_count s)[i := 0]\<rparr>))"

text \<open>
  \<^verbatim>\<open>on_rollback\<close> calls two functions from outside the repository's sources.
  \<^verbatim>\<open>rand_r((unsigned int*)&seed[threadid])\<close> is the C library's generator run on the
  thread's slot of \<^verbatim>\<open>seed\<close>: the parameter \<open>rand_r\<close> maps the slot to the \<^verbatim>\<open>int\<close>
  returned and the slot as the call leaves it. \<^verbatim>\<open>wait_cycles(n)\<close> spins for \<open>n\<close>
  cycles and changes nothing; the model returns \<open>n\<close> beside the new state.

  The \<^verbatim>\<open>int\<close> is converted to \<^verbatim>\<open>uint128_t\<close> for the remainder (\<open>scast\<close>), and
  the remainder to \<^verbatim>\<open>uint64_t\<close> (\<open>ucast\<close>). A zero divisor is undefined behaviour.
\<close>

definition on_rollback ::
    "cm_config \<Rightarrow> (128 word \<Rightarrow> 32 word \<times> 128 word) \<Rightarrow> cm_state \<Rightarrow> transaction
      \<Rightarrow> error + (cm_state \<times> 64 word)" where
  "on_rollback cfg rand_r s tx =
     (case slot_of (threadid tx) of
        Inl e \<Rightarrow> Inl e
      | Inr i \<Rightarrow>
          let s1 = (if abort_count s ! i < SUCC_ABORTS_MAX cfg
                    then s\<lparr>abort_count := (abort_count s)[i := abort_count s ! i + 1]\<rparr>
                    else s)
          in (case rand_r (seed s1 ! i) of
                (r, sd) \<Rightarrow>
                  let s2 = s1\<lparr>seed := (seed s1)[i := sd]\<rparr>;
                      d = abort_count s2 ! i * WAIT_CYCLES_MULTIPLICATOR cfg
                  in if d = 0 then Inl DivisionByZero
                     else let cycles_to_wait = (ucast (scast r mod d :: 128 word) :: 64 word)
                          in Inr (s2, cycles_to_wait)))"

text \<open>The state after \<open>n\<close> calls of \<^verbatim>\<open>on_write\<close> in a row by one transaction.\<close>

fun on_writes :: "cm_config \<Rightarrow> cm_state \<Rightarrow> transaction \<Rightarrow> nat \<Rightarrow> error + cm_state" where
  "on_writes cfg s tx 0 = Inr s"
| "on_writes cfg s tx (Suc n) =
     (case on_writes cfg s tx n of Inl e \<Rightarrow> Inl e | Inr s' \<Rightarrow> on_write cfg s' tx)"


subsection \<open>Example values\<close>

text \<open>
  A configuration, a generator and the initial state, for evaluating the operations on
  concrete inputs.
\<close>

definition example_config :: cm_config where
  "example_config = \<lparr>MAX_TS = 4294967295, TS_THRESHOLD = 1, SUCC_ABORTS_MAX = 10,
      WAIT_CYCLES_MULTIPLICATOR = 8000\<rparr>"


section \<open>Version words (EagerVersions.hh)\<close>

subsection \<open>Data\<close>

text \<open>
  \<^verbatim>\<open>TransactionTid\<close> (VersionBase.hh) is not among the sources. Its word type
  \<^verbatim>\<open>TransactionTid::type\<close> is \<open>'a word\<close> for any width, and the bit constants that
  the two classes use are parameters. \<^verbatim>\<open>TLockVersion::mask\<close> is \<^verbatim>\<open>threadid_mask\<close>:
  the field holds the reader count in \<^verbatim>\<open>TLockVersion\<close> and the owner's thread id in
  \<^verbatim>\<open>TSwissVersion\<close>.
\<close>

record (overloaded) ('a :: len) tid_consts =
  threadid_mask :: "'a word"
  lock_bit :: "'a word"
  opt_bit :: "'a word"
  dirty_bit :: "'a word"

text \<open>\<^verbatim>\<open>static constexpr type rlock_cnt_max = type(0x10);\<close>\<close>

definition rlock_cnt_max :: "'a::len word" where
  "rlock_cnt_max = 0x10"

text \<open>\<^verbatim>\<open>static constexpr type read_lock_bit = TransactionTid::dirty_bit;\<close>\<close>

definition read_lock_bit :: "'a::len tid_consts \<Rightarrow> 'a word" where
  "read_lock_bit L = dirty_bit L"

text \<open>\<^verbatim>\<open>enum class LockResponse : int {locked, failed, optimistic, spin};\<close>\<close>

datatype LockResponse = locked | failed | optimistic | spin

text \<open>What the operations ask of a \<^verbatim>\<open>TransItem\<close>.\<close>

record trans_item =
  needs_unlock :: bool
  has_write :: bool
  has_read :: bool

subsection \<open>Shared memory\<close>

text \<open>
  The word \<^verbatim>\<open>v_\<close> is shared between threads. An operation takes the word as it
  finds it and returns the word as it leaves it, together with the list of what it did
  to memory, in program order: compare-and-swap attempts with their outcome, atomic
  additions, plain stores, stores with release ordering, and fences. Loads are not listed.
\<close>

datatype event = Cmpxchg bool | FetchAndAdd | Store | StoreRelease | ReleaseFence | RelaxFence

text \<open>
  The other threads, as seen from one round of a compare-and-swap loop: a pair
  \<open>(e, e')\<close>, where \<open>e\<close> is what they do to the word between this thread's load and
  its compare-and-swap, and \<open>e'\<close> what they do between a failed compare-and-swap and
  the next load. A loop runs against a list of such pairs, one for each round; when the
  list is used up before the loop returns, the result is \<open>None\<close>.
\<close>

type_synonym 'a interference = "('a word \<Rightarrow> 'a word) \<times> ('a word \<Rightarrow> 'a word)"

text \<open>A round without interference: the other threads leave the word alone.\<close>

definition quiet :: "'a interference" where
  "quiet = (id, id)"

text \<open>
  Modelled from the spec: \<^verbatim>\<open>bool_cmpxchg\<close> (compiler.hh) is not among the sources.
  It is the atomic compare-and-swap of the whole word: when the word in memory equals
  \<open>expected\<close> it becomes \<open>desired\<close> and the call returns true; otherwise memory is
  unchanged and the call returns false.
\<close>

definition bool_cmpxchg :: "'a::len word \<Rightarrow> 'a word \<Rightarrow> 'a word \<Rightarrow> bool \<times> 'a word" where
  "bool_cmpxchg v expected desired = (if v = expected then (True, desired) else (False, v))"

text \<open>
  Modelled from the spec: \<^verbatim>\<open>TransactionTid::is_locked\<close> and
  \<^verbatim>\<open>BasicVersion::is_locked\<close> (VersionBase.hh) are not among the sources. The lock
  bit is set iff a writer owns the object; \<open>is_locked\<close> tests that bit.
\<close>

definition is_locked :: "'a::len tid_consts \<Rightarrow> 'a word \<Rightarrow> bool" where
  "is_locked L v \<longleftrightarrow> v AND lock_bit L \<noteq> 0"

text \<open>
  Modelled from the spec: \<^verbatim>\<open>BasicVersion::is_locked_here\<close> (VersionBase.hh) is not
  among the sources. The owner field is valid while the lock bit is set and names the
  holder; the word is locked by thread \<open>here\<close> when the lock bit is set and the owner
  field holds \<open>here\<close>.
\<close>

definition is_locked_here :: "'a::len tid_consts \<Rightarrow> 'a word \<Rightarrow> 'a word \<Rightarrow> bool" where
  "is_locked_here L v here \<longleftrightarrow> v AND lock_bit L \<noteq> 0 \<and> v AND threadid_mask L = here"

text \<open>
  Modelled from the spec: \<^verbatim>\<open>TransactionTid::unlock\<close> (VersionBase.hh) is not among
  the sources. The unlocking store is used only when the word is safely owned: it
  clears the lock (and the dirty bit) only if the word is still held by the calling
  thread \<open>here\<close>, and is a store with release ordering. With the lock bit goes the
  owner field, which is valid only while the lock bit is set. A word that the calling
  thread does not hold is left as it is.
\<close>

definition unlock :: "'a::len tid_consts \<Rightarrow> 'a word \<Rightarrow> 'a word \<Rightarrow> 'a word \<times> event list" where
  "unlock L here v =
     (if is_locked_here L v here
      then (v AND NOT (lock_bit L OR dirty_bit L OR threadid_mask L), [StoreRelease])
      else (v, []))"

subsection \<open>TLockVersion\<close>

text \<open>
  The operations are those of the default build, \<^verbatim>\<open>ADAPTIVE_RWLOCK == 0\<close>. An
  \<^verbatim>\<open>assert\<close> that fails ends the run with \<open>AssertionFailed\<close>.

  \<^verbatim>\<open>try_lock_read\<close> returns a pair of the response and a word; \<^verbatim>\<open>type()\<close> is 0.
\<close>

fun try_lock_read ::
    "'a::len tid_consts \<Rightarrow> 'a interference list \<Rightarrow> 'a word
      \<Rightarrow> ((LockResponse \<times> 'a word) \<times> 'a word \<times> event list) option" where
  "try_lock_read L [] v = None"
| "try_lock_read L ((e, e') # es) v =
     (let vv = v;
          write_locked = (vv AND lock_bit L \<noteq> 0);
          rlock_cnt = vv AND threadid_mask L;
          rlock_avail = (rlock_cnt < rlock_cnt_max)
      in if write_locked then Some ((spin, 0), v, [])
         else if \<not> rlock_avail then Some ((optimistic, vv), v, [])
         else (case bool_cmpxchg (e v) vv ((vv AND NOT (threadid_mask L)) OR (rlock_cnt + 1)) of
                 (True, v') \<Rightarrow> Some ((locked, 0), v', [Cmpxchg True])
               | (False, v') \<Rightarrow>
                   map_option (\<lambda>(r, w, t). (r, w, Cmpxchg False # RelaxFence # t))
                     (try_lock_read L es (e' v'))))"

fun try_lock_write ::
    "'a::len tid_consts \<Rightarrow> 'a interference list \<Rightarrow> 'a word
      \<Rightarrow> (LockResponse \<times> 'a word \<times> event list) option" where
  "try_lock_write L [] v = None"
| "try_lock_write L ((e, e') # es) v =
     (let vv = v;
          write_locked = (vv AND lock_bit L \<noteq> 0);
          read_locked = (vv AND threadid_mask L \<noteq> 0)
      in if write_locked \<or> read_locked then Some (spin, v, [])
         else (case bool_cmpxchg (e v) vv (vv OR lock_bit L) of
                 (True, v') \<Rightarrow> Some (locked, v', [Cmpxchg True])
               | (False, v') \<Rightarrow>
                   map_option (\<lambda>(r, w, t). (r, w, Cmpxchg False # RelaxFence # t))
                     (try_lock_write L es (e' v'))))"

text \<open>
  \<^verbatim>\<open>try_upgrade\<close> has no loop: one load, at most one compare-and-swap, with the
  interference \<open>e\<close> between them. \<^verbatim>\<open>&&\<close> does not evaluate the compare-and-swap
  when the count is not 1.
\<close>

definition try_upgrade ::
    "'a::len tid_consts \<Rightarrow> ('a word \<Rightarrow> 'a word) \<Rightarrow> 'a word
      \<Rightarrow> error + (LockResponse \<times> 'a word \<times> event list)" where
  "try_upgrade L e v =
     (let vv = v;
          rlock_cnt = vv AND threadid_mask L
      in if is_locked L vv then Inl AssertionFailed
         else if \<not> (rlock_cnt \<ge> 1) then Inl AssertionFailed
         else if rlock_cnt = 1
         then (case bool_cmpxchg (e v) vv ((vv - 1) OR lock_bit L) of
                 (True, v') \<Rightarrow> Inr (locked, v', [Cmpxchg True])
               | (False, v') \<Rightarrow> Inr (spin, v', [Cmpxchg False]))
         else Inr (spin, v, []))"

text \<open>\<^verbatim>\<open>__sync_fetch_and_add(&v_, -1)\<close>, then the assertion on the value fetched.\<close>

definition unlock_read :: "'a::len tid_consts \<Rightarrow> 'a word \<Rightarrow> error + ('a word \<times> event list)" where
  "unlock_read L v =
     (case fetch_and_add v (- 1) of
        (vv, v') \<Rightarrow>
          if vv AND threadid_mask L \<ge> 1 then Inr (v', [FetchAndAdd])
          else Inl AssertionFailed)"

text \<open>
  \<^verbatim>\<open>unlock_write\<close> reads the word, stores it back without the lock bit, and issues
  \<^verbatim>\<open>release_fence()\<close>. The store overwrites whatever is in memory, so the word left
  depends on the word read only.
\<close>

definition unlock_write :: "'a::len tid_consts \<Rightarrow> 'a word \<Rightarrow> error + ('a word \<times> event list)" where
  "unlock_write L v =
     (if \<not> is_locked L v then Inl AssertionFailed
      else let new_v = v AND NOT (lock_bit L)
           in Inr (new_v, [Store, ReleaseFence]))"

definition TLockVersion_cp_try_lock_impl ::
    "'a::len tid_consts \<Rightarrow> 'a interference list \<Rightarrow> 32 word \<Rightarrow> 'a word
      \<Rightarrow> (bool \<times> 'a word \<times> event list) option" where
  "TLockVersion_cp_try_lock_impl L es tid v =
     map_option (\<lambda>(r, w, t). (r = locked, w, t)) (try_lock_write L es v)"

definition TLockVersion_cp_unlock_impl ::
    "'a::len tid_consts \<Rightarrow> trans_item \<Rightarrow> 'a word \<Rightarrow> error + ('a word \<times> event list)" where
  "TLockVersion_cp_unlock_impl L item v =
     (if \<not> needs_unlock item then Inl AssertionFailed
      else if has_write item then unlock_write L v
      else if \<not> has_read item then Inl AssertionFailed
      else unlock_read L v)"

subsection \<open>TSwissVersion\<close>

text \<open>
  \<^verbatim>\<open>cp_try_lock_impl(int threadid)\<close>: the assertion, \<^verbatim>\<open>v_ |= read_lock_bit\<close>,
  \<^verbatim>\<open>release_fence()\<close>, \<^verbatim>\<open>return true\<close>. The \<^verbatim>\<open>int\<close> is converted to the word
  type (\<open>scast\<close>).
\<close>

definition TSwissVersion_cp_try_lock_impl ::
    "'a::len tid_consts \<Rightarrow> 32 word \<Rightarrow> 'a word \<Rightarrow> error + (bool \<times> 'a word \<times> event list)" where
  "TSwissVersion_cp_try_lock_impl L tid v =
     (if \<not> is_locked_here L v (scast tid) then Inl AssertionFailed
      else Inr (True, v OR read_lock_bit L, [Store, ReleaseFence]))"

text \<open>
  \<^verbatim>\<open>cp_unlock_impl(TransItem& item)\<close>: the assertion, then
  \<^verbatim>\<open>if (BV::is_locked()) TransactionTid::unlock(v_);\<close>. The calling thread is not
  an argument in the source; \<open>here\<close> is its id, \<^verbatim>\<open>TThread::id()\<close>, an \<^verbatim>\<open>int\<close>
  converted to the word type (\<open>scast\<close>).
\<close>

definition TSwissVersion_cp_unlock_impl ::
    "'a::len tid_consts \<Rightarrow> 32 word \<Rightarrow> trans_item \<Rightarrow> 'a word
      \<Rightarrow> error + ('a word \<times> event list)" where
  "TSwissVersion_cp_unlock_impl L here item v =
     (if \<not> needs_unlock item then Inl AssertionFailed
      else if is_locked L v then Inr (unlock L (scast here) v)
      else Inr (v, []))"

subsection \<open>Layout of the word\<close>

text \<open>
  What \<^verbatim>\<open>TLockVersion\<close> assumes of the constants: the field \<^verbatim>\<open>threadid_mask\<close> is
  the low \<open>k\<close> bits of the word, wide enough for \<^verbatim>\<open>rlock_cnt_max\<close>, and the lock bit
  lies outside it.
\<close>

definition tid_layout :: "'a::len tid_consts \<Rightarrow> nat \<Rightarrow> bool" where
  "tid_layout L k \<longleftrightarrow>
     threadid_mask L = mask k \<and> 5 \<le> k \<and> lock_bit L \<noteq> 0 \<and>
     lock_bit L AND threadid_mask L = 0"

text \<open>
  What \<^verbatim>\<open>TSwissVersion\<close> assumes: lock bit, dirty bit and owner field do not overlap.
\<close>

definition swiss_layout :: "'a::len tid_consts \<Rightarrow> bool" where
  "swiss_layout L \<longleftrightarrow>
     lock_bit L \<noteq> 0 \<and> dirty_bit L \<noteq> 0 \<and> lock_bit L AND threadid_mask L = 0 \<and>
     dirty_bit L AND lock_bit L = 0 \<and> dirty_bit L AND threadid_mask L = 0"

text \<open>A 64-bit layout for evaluating the operations on concrete words.\<close>

definition example_tid :: "64 tid_consts" where
  "example_tid = \<lparr>threadid_mask = 0x1F, lock_bit = 0x20, opt_bit = 0x40, dirty_bit = 0x80\<rparr>"

subsection \<open>Sequences of lock operations\<close>

text \<open>
  The reader count is zero while the lock bit is set, and it is at most
  \<^verbatim>\<open>rlock_cnt_max\<close>.
\<close>

definition lock_inv :: "'a::len tid_consts \<Rightarrow> 'a word \<Rightarrow> bool" where
  "lock_inv L v \<longleftrightarrow>
     (v AND lock_bit L \<noteq> 0 \<longrightarrow> v AND threadid_mask L = 0) \<and>
     v AND threadid_mask L \<le> rlock_cnt_max"

text \<open>
  The four private operations of \<^verbatim>\<open>TLockVersion\<close> on one word, each run to its
  return; the two loops carry the interference they meet.
\<close>

datatype 'f lock_op =
    Try_lock_read "('f \<times> 'f) list"
  | Try_lock_write "('f \<times> 'f) list"
  | Unlock_read
  | Unlock_write

text \<open>
  \<open>None\<close>: the loop has not returned within its schedule. \<open>Some (Inl e)\<close>: an
  assertion failed. \<open>Some (Inr w)\<close>: the operation returned and left \<open>w\<close>.
\<close>

fun run_op ::
    "'a::len tid_consts \<Rightarrow> ('a word \<Rightarrow> 'a word) lock_op \<Rightarrow> 'a word \<Rightarrow> (error + 'a word) option" where
  "run_op L (Try_lock_read es) v = map_option (\<lambda>(r, w, t). Inr w) (try_lock_read L es v)"
| "run_op L (Try_lock_write es) v = map_option (\<lambda>(r, w, t). Inr w) (try_lock_write L es v)"
| "run_op L Unlock_read v = Some (map_sum id fst (unlock_read L v))"
| "run_op L Unlock_write v = Some (map_sum id fst (unlock_write L v))"

fun run_ops ::
    "'a::len tid_consts \<Rightarrow> ('a word \<Rightarrow> 'a word) lock_op list \<Rightarrow> 'a word
      \<Rightarrow> (error + 'a word) option" where
  "run_ops L [] v = Some (Inr v)"
| "run_ops L (op # ops) v =
     (case run_op L op v of
        Some (Inr w) \<Rightarrow> run_ops L ops w
      | r \<Rightarrow> r)"

text \<open>
  What is assumed of the other threads while a loop runs: whatever they do to the word
  keeps \<open>lock_inv\<close>.
\<close>

definition preserves :: "'a::len tid_consts \<Rightarrow> ('a word \<Rightarrow> 'a word) \<Rightarrow> bool" where
  "preserves L f \<longleftrightarrow> (\<forall>u. lock_inv L u \<longrightarrow> lock_inv L (f u))"

fun rely :: "'a::len tid_consts \<Rightarrow> ('a word \<Rightarrow> 'a word) lock_op \<Rightarrow> bool" where
  "rely L (Try_lock_read es) = (\<forall>(e, e') \<in> set es. preserves L e \<and> preserves L e')"
| "rely L (Try_lock_write es) = (\<forall>(e, e') \<in> set es. preserves L e \<and> preserves L e')"
| "rely L Unlock_read = True"
| "rely L Unlock_write = True"

text \<open>
  What a sequence of these operations, run by other threads, does to the word; a
  sequence that does not run to its end leaves the word alone.
\<close>

definition others ::
    "'a::len tid_consts \<Rightarrow> ('a word \<Rightarrow> 'a word) lock_op list \<Rightarrow> 'a word \<Rightarrow> 'a word" where
  "others L ops u = (case run_ops L ops u of Some (Inr w) \<Rightarrow> w | _ \<Rightarrow> u)"

section \<open>Contention manager: properties\<close>

lemma slot_of_Inr_iff:
  "slot_of tid = Inr i \<longleftrightarrow> 0 \<le> sint tid \<and> sint tid \<le> 31 \<and> i = 4 * nat (sint tid)"
  by (auto simp: slot_of_def Let_def cm_slots_def)

lemma slot_of_less: "slot_of tid = Inr i \<Longrightarrow> i < cm_slots"
  by (auto simp: slot_of_def Let_def cm_slots_def split: if_splits)

lemma cm_init_wf: "cm_wf cm_init"
  by (simp add: cm_wf_def cm_init_def)

lemma slot_of_3: "slot_of 3 = Inr 12"
  by (simp add: slot_of_def cm_slots_def)

lemma on_write_step:
  assumes wf: "cm_wf s" and slot: "slot_of (threadid tx) = Inr i"
  shows "on_write cfg s tx =
     Inr (if timestamp s ! i = MAX_TS cfg \<and> write_set_size s ! i + 1 = TS_THRESHOLD cfg
          then s\<lparr>write_set_size := (write_set_size s)[i := write_set_size s ! i + 1],
                 ts := ts s + 1, timestamp := (timestamp s)[i := ucast (ts s)]\<rparr>
          else s\<lparr>write_set_size := (write_set_size s)[i := write_set_size s ! i + 1]\<rparr>)"
proof -
  from slot have "i < cm_slots" by (rule slot_of_less)
  with wf show ?thesis
    by (simp add: on_write_def slot cm_wf_def fetch_and_add_def Let_def)
qed

lemma on_write_size:
  assumes wf: "cm_wf s" and slot: "slot_of (threadid tx) = Inr i"
  shows "\<exists>s'. on_write cfg s tx = Inr s' \<and> cm_wf s' \<and>
           write_set_size s' ! i = write_set_size s ! i + 1"
proof -
  from slot have "i < cm_slots" by (rule slot_of_less)
  with wf show ?thesis
    unfolding on_write_step [OF wf slot] by (simp add: cm_wf_def)
qed

lemma on_writes_size:
  assumes wf: "cm_wf s" and slot: "slot_of (threadid tx) = Inr i"
  shows "\<exists>sn. on_writes cfg s tx n = Inr sn \<and> cm_wf sn \<and>
           write_set_size sn ! i = write_set_size s ! i + of_nat n"
proof (induction n)
  case 0
  with wf show ?case by simp
next
  case (Suc n)
  then obtain sn where sn: "on_writes cfg s tx n = Inr sn" "cm_wf sn"
    and sz: "write_set_size sn ! i = write_set_size s ! i + of_nat n" by blast
  from on_write_size [OF sn(2) slot, of cfg]
  obtain s' where s': "on_write cfg sn tx = Inr s'" "cm_wf s'"
    and sz': "write_set_size s' ! i = write_set_size sn ! i + 1" by blast
  from sz sz' have "write_set_size s' ! i = write_set_size s ! i + of_nat (Suc n)"
    by (simp add: add.assoc)
  with sn s' show ?case by simp
qed

lemma start_wf:
  assumes "cm_wf s" "start cfg s tx = Inr s'"
  shows "cm_wf s'"
  using assms by (auto simp: start_def cm_wf_def split: sum.splits if_splits)

lemma of_nat_128_inj:
  assumes eq: "(of_nat a :: 128 word) = of_nat b" and le: "a \<le> b" and lt: "b < a + 2 ^ 128"
  shows "a = b"
proof (rule ccontr)
  assume ne: "a \<noteq> b"
  from eq have "b mod 2 ^ 128 = a mod 2 ^ 128"
    by (simp add: word_of_nat_eq_iff take_bit_eq_mod)
  with le have "(2 ^ 128 :: nat) dvd b - a"
    by (simp add: mod_eq_dvd_iff_nat)
  moreover from ne le have "0 < b - a" by simp
  moreover from lt have "b - a < 2 ^ 128" by simp
  ultimately show False by (meson nat_dvd_not_less)
qed






text \<open>
  C1. \<^verbatim>\<open>start(tx)\<close> sets the thread's \<^verbatim>\<open>write_set_size\<close> to 0, its \<^verbatim>\<open>timestamp\<close>
  to \<^verbatim>\<open>MAX_TS\<close> and its \<^verbatim>\<open>aborted\<close> flag to 0. Its \<^verbatim>\<open>abort_count\<close> becomes 0 when
  the transaction is not a restart and keeps its value when it is. The thread's slot is
  \<open>i\<close>; the call succeeds whenever the thread id has a slot.
\<close>

theorem start_resets:
  assumes wf: "cm_wf s" and slot: "slot_of (threadid tx) = Inr i"
  shows "\<exists>s'. start cfg s tx = Inr s' \<and>
           write_set_size s' ! i = 0 \<and>
           timestamp s' ! i = MAX_TS cfg \<and>
           aborted s' ! i = 0 \<and>
           abort_count s' ! i = (if is_restarted tx then abort_count s ! i else 0)"
proof -
  from slot have "i < cm_slots" by (rule slot_of_less)
  with wf show ?thesis
    by (simp add: start_def slot cm_wf_def)
qed

theorem start_resets_witness:
  "\<exists>s'. start \<lparr>MAX_TS = 4294967295, TS_THRESHOLD = 10, SUCC_ABORTS_MAX = 10,
               WAIT_CYCLES_MULTIPLICATOR = 8000\<rparr> cm_init
               \<lparr>threadid = 3, is_restarted = True\<rparr> = Inr s' \<and>
        write_set_size s' ! 12 = 0 \<and> timestamp s' ! 12 = 4294967295 \<and>
        aborted s' ! 12 = 0 \<and> abort_count s' ! 12 = abort_count cm_init ! 12"
  using start_resets [of cm_init "\<lparr>threadid = 3, is_restarted = True\<rparr>" 12
      "\<lparr>MAX_TS = 4294967295, TS_THRESHOLD = 10, SUCC_ABORTS_MAX = 10,
        WAIT_CYCLES_MULTIPLICATOR = 8000\<rparr>"]
  by (simp add: cm_wf_def cm_init_def slot_of_def cm_slots_def)

text \<open>
  C5. \<^verbatim>\<open>on_write(tx)\<close> adds one to the thread's \<^verbatim>\<open>write_set_size\<close>. If the thread's
  \<^verbatim>\<open>timestamp\<close> is \<^verbatim>\<open>MAX_TS\<close> and the new \<^verbatim>\<open>write_set_size\<close> equals
  \<^verbatim>\<open>TS_THRESHOLD\<close>, the timestamp becomes the value that \<^verbatim>\<open>fetch_and_add\<close> returns for
  the global counter, which moves on; on every other call the timestamp and the counter
  keep their values. Within one attempt (the calls that follow a \<^verbatim>\<open>start\<close>, fewer than
  \<open>2 ^ 128\<close> of them, the width of the size counter) at most one call assigns a
  timestamp: when call \<open>j + 1\<close> has moved the counter, a later call \<open>k + 1\<close> leaves
  counter and timestamp alone.
\<close>

theorem on_write_timestamp:
  assumes wf: "cm_wf s" and slot: "slot_of (threadid tx) = Inr i"
  shows "(\<exists>s'. on_write cfg s tx = Inr s' \<and>
            write_set_size s' ! i = write_set_size s ! i + 1 \<and>
            (if timestamp s ! i = MAX_TS cfg \<and> write_set_size s ! i + 1 = TS_THRESHOLD cfg
             then timestamp s' ! i = ucast (fst (fetch_and_add (ts s) 1)) \<and>
                  ts s' = snd (fetch_and_add (ts s) 1) \<and> ts s' \<noteq> ts s
             else timestamp s' ! i = timestamp s ! i \<and> ts s' = ts s))
       \<and> (\<forall>s0 j k sj sj' sk sk'.
            start cfg s0 tx = Inr s \<and> j < k \<and> k < 2 ^ 128 \<and>
            on_writes cfg s tx j = Inr sj \<and> on_write cfg sj tx = Inr sj' \<and>
            on_writes cfg s tx k = Inr sk \<and> on_write cfg sk tx = Inr sk' \<and>
            ts sj' \<noteq> ts sj
            \<longrightarrow> ts sk' = ts sk \<and> timestamp sk' ! i = timestamp sk ! i)"
proof (intro conjI allI impI)
  from slot have i: "i < cm_slots" by (rule slot_of_less)
  with wf have len: "i < length (write_set_size s)" "i < length (timestamp s)"
    by (simp_all add: cm_wf_def)
  have "ts s + 1 \<noteq> ts s" by simp
  with len show "\<exists>s'. on_write cfg s tx = Inr s' \<and>
            write_set_size s' ! i = write_set_size s ! i + 1 \<and>
            (if timestamp s ! i = MAX_TS cfg \<and> write_set_size s ! i + 1 = TS_THRESHOLD cfg
             then timestamp s' ! i = ucast (fst (fetch_and_add (ts s) 1)) \<and>
                  ts s' = snd (fetch_and_add (ts s) 1) \<and> ts s' \<noteq> ts s
             else timestamp s' ! i = timestamp s ! i \<and> ts s' = ts s)"
    by (simp add: on_write_step [OF wf slot] fetch_and_add_def)
next
  fix s0 j k sj sj' sk sk'
  assume a: "start cfg s0 tx = Inr s \<and> j < k \<and> k < 2 ^ 128 \<and>
            on_writes cfg s tx j = Inr sj \<and> on_write cfg sj tx = Inr sj' \<and>
            on_writes cfg s tx k = Inr sk \<and> on_write cfg sk tx = Inr sk' \<and>
            ts sj' \<noteq> ts sj"
  then have st: "start cfg s0 tx = Inr s" and jk: "j < k" and k128: "k < 2 ^ 128"
    and rj: "on_writes cfg s tx j = Inr sj" and wj: "on_write cfg sj tx = Inr sj'"
    and rk: "on_writes cfg s tx k = Inr sk" and wk: "on_write cfg sk tx = Inr sk'"
    and mint: "ts sj' \<noteq> ts sj"
    by simp_all
  from slot have i: "i < cm_slots" by (rule slot_of_less)
  from st wf i have z: "write_set_size s ! i = 0"
    by (auto simp: start_def slot cm_wf_def split: if_splits)
  from on_writes_size [OF wf slot, of cfg j] rj z
  have j: "cm_wf sj" "write_set_size sj ! i = of_nat j" by auto
  from on_writes_size [OF wf slot, of cfg k] rk z
  have k: "cm_wf sk" "write_set_size sk ! i = of_nat k" by auto
  from wj mint have "write_set_size sj ! i + 1 = TS_THRESHOLD cfg"
    unfolding on_write_step [OF j(1) slot] by (auto split: if_splits)
  with j have tj: "TS_THRESHOLD cfg = of_nat (j + 1)" by (simp add: ac_simps)
  have "write_set_size sk ! i + 1 \<noteq> TS_THRESHOLD cfg"
  proof
    assume "write_set_size sk ! i + 1 = TS_THRESHOLD cfg"
    with k tj have "(of_nat (j + 1) :: 128 word) = of_nat (k + 1)" by (simp add: ac_simps)
    moreover from jk have "j + 1 \<le> k + 1" by simp
    moreover from k128 have "k + 1 < j + 1 + 2 ^ 128" by linarith
    ultimately have "j + 1 = k + 1" by (rule of_nat_128_inj)
    with jk show False by simp
  qed
  with wk show "ts sk' = ts sk" "timestamp sk' ! i = timestamp sk ! i"
    unfolding on_write_step [OF k(1) slot] by auto
qed

theorem on_write_timestamp_witness:
  "\<exists>s s1 s2. start example_config cm_init \<lparr>threadid = 3, is_restarted = False\<rparr> = Inr s \<and>
      on_write example_config s \<lparr>threadid = 3, is_restarted = False\<rparr> = Inr s1 \<and>
      on_write example_config s1 \<lparr>threadid = 3, is_restarted = False\<rparr> = Inr s2 \<and>
      write_set_size s1 ! 12 = 1 \<and> timestamp s1 ! 12 = 0 \<and> ts s1 = 1 \<and> ts s2 = 1"
proof -
  let ?tx = "\<lparr>threadid = 3, is_restarted = False\<rparr>"
  have slot: "slot_of (threadid ?tx) = Inr 12" by (simp add: slot_of_3)
  obtain s where s: "start example_config cm_init ?tx = Inr s"
    by (simp add: start_def slot_of_3)
  have wf: "cm_wf s" using cm_init_wf s by (rule start_wf)
  from s have s0: "write_set_size s ! 12 = 0" "timestamp s ! 12 = MAX_TS example_config" "ts s = 0"
    by (auto simp: start_def slot_of_3 cm_init_def cm_slots_def)
  note T = on_write_timestamp [OF wf slot, of example_config]
  from T have "\<exists>s'. on_write example_config s ?tx = Inr s' \<and>
            write_set_size s' ! 12 = write_set_size s ! 12 + 1 \<and>
            (if timestamp s ! 12 = MAX_TS example_config \<and>
                write_set_size s ! 12 + 1 = TS_THRESHOLD example_config
             then timestamp s' ! 12 = ucast (fst (fetch_and_add (ts s) 1)) \<and>
                  ts s' = snd (fetch_and_add (ts s) 1) \<and> ts s' \<noteq> ts s
             else timestamp s' ! 12 = timestamp s ! 12 \<and> ts s' = ts s)"
    by (rule conjunct1)
  then obtain s1 where s1: "on_write example_config s ?tx = Inr s1"
    and w1: "write_set_size s1 ! 12 = 1" and t1: "timestamp s1 ! 12 = 0" and c1: "ts s1 = 1"
    by (auto simp: s0 example_config_def fetch_and_add_def)
  have wf1: "cm_wf s1" using on_write_size [OF wf slot, of example_config] s1 by auto
  from on_write_size [OF wf1 slot, of example_config]
  obtain s2 where s2: "on_write example_config s1 ?tx = Inr s2" by blast
  from T have R: "\<forall>s0 j k sj sj' sk sk'.
            start example_config s0 ?tx = Inr s \<and> j < k \<and> k < 2 ^ 128 \<and>
            on_writes example_config s ?tx j = Inr sj \<and> on_write example_config sj ?tx = Inr sj' \<and>
            on_writes example_config s ?tx k = Inr sk \<and> on_write example_config sk ?tx = Inr sk' \<and>
            ts sj' \<noteq> ts sj
            \<longrightarrow> ts sk' = ts sk \<and> timestamp sk' ! 12 = timestamp sk ! 12"
    by (rule conjunct2)
  have r0: "on_writes example_config s ?tx 0 = Inr s" by simp
  have r1: "on_writes example_config s ?tx 1 = Inr s1"
    unfolding One_nat_def on_writes.simps using s1 by simp
  have k: "(0::nat) < 1" "(1::nat) < 2 ^ 128" by simp_all
  have ne: "ts s1 \<noteq> ts s" by (simp add: c1 s0)
  from R [rule_format, of cm_init 0 1 s s1 s1 s2] s k r0 s1 r1 s2 ne
  have "ts s2 = ts s1" by blast
  with c1 have "ts s2 = 1" by simp
  with s s1 s2 w1 t1 c1 show ?thesis by blast
qed



text \<open>
  C10. The three operations subscript the 128-element arrays at four times the thread
  id. The subscript is inside the arrays exactly for thread ids 0 to 31: \<^verbatim>\<open>start\<close> and
  \<^verbatim>\<open>on_write\<close> return a state exactly then, and \<^verbatim>\<open>on_rollback\<close> fails on the subscript
  exactly otherwise. From thread id 32 on, four times the id is at least 128, past the
  end (or the product does not fit an \<^verbatim>\<open>int\<close>).
\<close>

theorem cm_slot_bounds:
  fixes tx :: transaction
  defines "t \<equiv> sint (threadid tx)"
  shows "((\<exists>i. slot_of (threadid tx) = Inr i) \<longleftrightarrow> 0 \<le> t \<and> t \<le> 31) \<and>
         (\<forall>i. slot_of (threadid tx) = Inr i \<longrightarrow> int i = 4 * t \<and> i < cm_slots) \<and>
         (32 \<le> t \<longrightarrow> int cm_slots \<le> 4 * t \<and>
            (slot_of (threadid tx) = Inl (OutOfBounds (4 * t)) \<or>
             slot_of (threadid tx) = Inl SignedOverflow)) \<and>
         ((\<exists>s'. start cfg s tx = Inr s') \<longleftrightarrow> 0 \<le> t \<and> t \<le> 31) \<and>
         ((\<exists>s'. on_write cfg s tx = Inr s') \<longleftrightarrow> 0 \<le> t \<and> t \<le> 31) \<and>
         ((\<exists>e. on_rollback cfg rand_r s tx = Inl e \<and> e \<noteq> DivisionByZero) \<longleftrightarrow>
            \<not> (0 \<le> t \<and> t \<le> 31))"
proof -
  have A: "(\<exists>i. slot_of (threadid tx) = Inr i) \<longleftrightarrow> 0 \<le> t \<and> t \<le> 31"
    by (auto simp: slot_of_Inr_iff t_def)
  have B: "\<forall>i. slot_of (threadid tx) = Inr i \<longrightarrow> int i = 4 * t \<and> i < cm_slots"
    by (auto simp: slot_of_Inr_iff t_def cm_slots_def)
  have C: "32 \<le> t \<longrightarrow> int cm_slots \<le> 4 * t \<and>
            (slot_of (threadid tx) = Inl (OutOfBounds (4 * t)) \<or>
             slot_of (threadid tx) = Inl SignedOverflow)"
    by (auto simp: slot_of_def Let_def t_def cm_slots_def mult.commute)
  have D: "(\<exists>s'. start cfg s tx = Inr s') \<longleftrightarrow> (\<exists>i. slot_of (threadid tx) = Inr i)"
    by (auto simp: start_def split: sum.splits)
  have E: "(\<exists>s'. on_write cfg s tx = Inr s') \<longleftrightarrow> (\<exists>i. slot_of (threadid tx) = Inr i)"
    by (auto simp: on_write_def Let_def fetch_and_add_def split: sum.splits)
  have F: "(\<exists>e. on_rollback cfg rand_r s tx = Inl e \<and> e \<noteq> DivisionByZero) \<longleftrightarrow>
            \<not> (\<exists>i. slot_of (threadid tx) = Inr i)"
    by (auto simp: on_rollback_def Let_def slot_of_def split: sum.splits prod.splits if_splits)
  show ?thesis using A B C D E F by simp
qed

theorem cm_slot_bounds_witness:
  "(\<exists>s'. start example_config cm_init \<lparr>threadid = 31, is_restarted = False\<rparr> = Inr s') \<and>
   \<not> (\<exists>s'. start example_config cm_init \<lparr>threadid = 32, is_restarted = False\<rparr> = Inr s') \<and>
   slot_of 32 = Inl (OutOfBounds 128) \<and> slot_of 31 = Inr 124"
  using cm_slot_bounds [of "\<lparr>threadid = 31, is_restarted = False\<rparr>" example_config cm_init]
    cm_slot_bounds [of "\<lparr>threadid = 32, is_restarted = False\<rparr>" example_config cm_init]
  by (simp add: slot_of_def cm_slots_def)

section \<open>Version words: properties\<close>

subsection \<open>Bit arithmetic\<close>

lemma fits_iff:
  fixes x :: "'a::len word"
  shows "x AND mask k = x \<longleftrightarrow> x AND NOT (mask k) = 0"
  by (auto simp: bit_eq_iff bit_simps)

lemma low_bits_replace:
  fixes v x :: "'a::len word"
  assumes "x AND mask k = x"
  shows "((v AND NOT (mask k)) OR x) AND mask k = x"
    and "((v AND NOT (mask k)) OR x) AND NOT (mask k) = v AND NOT (mask k)"
proof -
  from assms have z: "x AND NOT (mask k) = 0" by (simp add: fits_iff)
  show "((v AND NOT (mask k)) OR x) AND mask k = x"
    by (simp add: word_ao_dist and.assoc assms)
  show "((v AND NOT (mask k)) OR x) AND NOT (mask k) = v AND NOT (mask k)"
    by (simp add: word_ao_dist and.assoc z)
qed

lemma inc_fits:
  fixes c :: "'a::len word"
  assumes c: "c < 0x10" and k: "5 \<le> k"
  shows "(c + 1) AND mask k = c + 1"
proof -
  from c have "unat c < unat (0x10 :: 'a word)" by (simp only: word_less_nat_alt)
  also have "unat (0x10 :: 'a word) = take_bit LENGTH('a) (16::nat)" by simp
  also have "\<dots> \<le> 16" by (rule take_bit_nat_less_eq_self)
  finally have "unat c < 16" .
  moreover have "unat (c + 1) \<le> unat c + 1"
    by (simp add: unat_word_ariths)
  ultimately have lt: "unat (c + 1) < 32" by simp
  have "(32::nat) = 2 ^ 5" by simp
  also from k have "\<dots> \<le> 2 ^ k" by (intro power_increasing) simp_all
  finally have "(32::nat) \<le> 2 ^ k" .
  with lt have "unat (c + 1) < 2 ^ k" by (rule less_le_trans)
  then have "int (unat (c + 1)) < int (2 ^ k)" by (simp only: of_nat_less_iff)
  then have "uint (c + 1) < 2 ^ k"
    by (simp only: uint_nat of_nat_power of_nat_numeral)
  then show ?thesis by (simp add: mask_eq_iff)
qed

lemma dec_fits:
  fixes v :: "'a::len word"
  assumes "1 \<le> v AND mask k"
  shows "((v AND mask k) - 1) AND mask k = (v AND mask k) - 1"
proof -
  have "uint (v AND mask k) < 2 ^ k" by (rule and_mask_lt_2p)
  moreover from assms have "uint ((v AND mask k) - 1) \<le> uint (v AND mask k)"
    by uint_arith
  ultimately show ?thesis by (simp add: mask_eq_iff)
qed

lemma split_low:
  fixes v :: "'a::len word"
  shows "v = (v AND NOT (mask k)) + (v AND mask k)"
proof -
  have "(v AND NOT (mask k)) AND (v AND mask k) = 0"
    by (auto simp: bit_eq_iff bit_simps)
  then have "(v AND NOT (mask k)) + (v AND mask k) = (v AND NOT (mask k)) OR (v AND mask k)"
    by (rule disjunctive_add_eq_or)
  also have "\<dots> = v"
    by (auto simp: bit_eq_iff bit_simps)
  finally show ?thesis by simp
qed

lemma dec_as_replace:
  fixes v :: "'a::len word"
  assumes "1 \<le> v AND mask k"
  shows "v - 1 = (v AND NOT (mask k)) OR ((v AND mask k) - 1)"
proof -
  have "v - 1 = (v AND NOT (mask k)) + ((v AND mask k) - 1)"
    using split_low [of v k] by simp
  also have "\<dots> = (v AND NOT (mask k)) OR ((v AND mask k) - 1)"
  proof (rule disjunctive_add_eq_or)
    have "((v AND mask k) - 1) AND NOT (mask k) = 0"
      using dec_fits [OF assms] by (simp add: fits_iff)
    then show "(v AND NOT (mask k)) AND ((v AND mask k) - 1) = 0"
      by (metis and.assoc and.commute and_zero_eq)
  qed
  finally show ?thesis .
qed

lemma try_lock_read_locked:
  "try_lock_read L es v = Some ((locked, r), w, t) \<Longrightarrow>
     r = 0 \<and> t \<noteq> [] \<and> last t = Cmpxchg True \<and>
     (\<exists>u. u AND lock_bit L = 0 \<and> u AND threadid_mask L < rlock_cnt_max \<and>
          w = (u AND NOT (threadid_mask L)) OR ((u AND threadid_mask L) + 1))"
proof (induction es arbitrary: v w t)
  case Nil
  then show ?case by simp
next
  case (Cons a es)
  obtain e e' where a: "a = (e, e')" by (cases a)
  note prems = Cons.prems [unfolded a]
  show ?case
  proof (cases "v AND lock_bit L \<noteq> 0 \<or> \<not> v AND threadid_mask L < rlock_cnt_max")
    case True
    with prems show ?thesis by (auto simp: Let_def split: if_splits)
  next
    case False
    show ?thesis
    proof (cases "e v = v")
      case True
      with False prems show ?thesis
        by (auto simp: Let_def bool_cmpxchg_def)
    next
      case ne: False
      with False prems obtain t' where
        rec: "try_lock_read L es (e' (e v)) = Some ((locked, r), w, t')"
        and t: "t = Cmpxchg False # RelaxFence # t'"
        by (auto simp: Let_def bool_cmpxchg_def)
      from Cons.IH [OF rec] t show ?thesis by simp
    qed
  qed
qed

lemma try_lock_write_locked:
  "try_lock_write L es v = Some (locked, w, t) \<Longrightarrow>
     t \<noteq> [] \<and> last t = Cmpxchg True \<and>
     (\<exists>u. u AND lock_bit L = 0 \<and> u AND threadid_mask L = 0 \<and> w = u OR lock_bit L)"
proof (induction es arbitrary: v w t)
  case Nil
  then show ?case by simp
next
  case (Cons a es)
  obtain e e' where a: "a = (e, e')" by (cases a)
  note prems = Cons.prems [unfolded a]
  show ?case
  proof (cases "v AND lock_bit L \<noteq> 0 \<or> v AND threadid_mask L \<noteq> 0")
    case True
    with prems show ?thesis by (auto simp: Let_def split: if_splits)
  next
    case False
    show ?thesis
    proof (cases "e v = v")
      case True
      with False prems show ?thesis
        by (auto simp: Let_def bool_cmpxchg_def)
    next
      case ne: False
      with False prems obtain t' where
        rec: "try_lock_write L es (e' (e v)) = Some (locked, w, t')"
        and t: "t = Cmpxchg False # RelaxFence # t'"
        by (auto simp: Let_def bool_cmpxchg_def)
      from Cons.IH [OF rec] t show ?thesis by simp
    qed
  qed
qed

lemma read_lock_word:
  fixes u :: "'a::len word"
  assumes m: "threadid_mask L = mask k" and k: "5 \<le> k"
    and c: "u AND threadid_mask L < rlock_cnt_max"
  defines "w \<equiv> (u AND NOT (threadid_mask L)) OR ((u AND threadid_mask L) + 1)"
  shows "w AND threadid_mask L = (u AND threadid_mask L) + 1"
    and "w AND NOT (threadid_mask L) = u AND NOT (threadid_mask L)"
proof -
  from c have "((u AND mask k) + 1) AND mask k = (u AND mask k) + 1"
    unfolding m rlock_cnt_max_def using k by (rule inc_fits)
  then show "w AND threadid_mask L = (u AND threadid_mask L) + 1"
    and "w AND NOT (threadid_mask L) = u AND NOT (threadid_mask L)"
    unfolding w_def m by (rule low_bits_replace)+
qed

lemma and_not_frame:
  fixes v b :: "'a::len word"
  shows "(v AND NOT b) AND b = 0"
    and "\<not> bit b n \<Longrightarrow> bit (v AND NOT b) n = bit v n"
    and "b AND f = 0 \<Longrightarrow> (v AND NOT b) AND f = v AND f"
  by (auto simp: bit_eq_iff bit_simps dest: bit_imp_le_length)

lemma or_frame:
  fixes v b :: "'a::len word"
  shows "(v OR b) AND b = b"
    and "\<not> bit b n \<Longrightarrow> bit (v OR b) n = bit v n"
    and "b AND f = 0 \<Longrightarrow> (v OR b) AND f = v AND f"
  by (auto simp: bit_eq_iff bit_simps dest: bit_imp_le_length)

lemma upgrade_word:
  fixes v :: "'a::len word"
  assumes one: "v AND m = 1" and disj: "b AND m = 0"
  defines "w \<equiv> (v - 1) OR b"
  shows "w AND b = b" and "w AND m = 0"
    and "\<not> bit b n \<Longrightarrow> \<not> bit m n \<Longrightarrow> bit w n = bit v n"
proof -
  have bits: "bit v n \<and> bit m n \<longleftrightarrow> n = 0" for n
  proof -
    have "bit (v AND m) n \<longleftrightarrow> bit (1 :: 'a word) n" by (simp only: one)
    then show ?thesis by (simp add: bit_and_iff bit_1_iff)
  qed
  from bits [of 0] have b0: "bit v 0" "bit m 0" by simp_all
  have "bit v n" if "bit (1 :: 'a word) n" for n
    using that b0 by (simp add: bit_1_iff)
  then have d: "v - 1 = v AND NOT 1" by (rule disjunctive_diff)
  have bm: "\<not> (bit b n \<and> bit m n)" for n
  proof -
    have "bit (b AND m) n \<longleftrightarrow> bit (0 :: 'a word) n" by (simp only: disj)
    then show ?thesis by (simp add: bit_and_iff)
  qed
  show "w AND b = b" unfolding w_def by (rule or_frame)
  show "w AND m = 0"
    unfolding w_def d using bits bm
    by (auto simp: bit_eq_iff bit_simps)
  show "bit w n = bit v n" if "\<not> bit b n" "\<not> bit m n"
    unfolding w_def d using that b0
    by (cases n) (auto simp: bit_simps dest: bit_imp_le_length)
qed

lemma clear_fields:
  fixes v :: "'a::len word" and L :: "'a tid_consts"
  defines "w \<equiv> v AND NOT (lock_bit L OR dirty_bit L OR threadid_mask L)"
  shows "w AND lock_bit L = 0" and "w AND dirty_bit L = 0" and "w AND threadid_mask L = 0"
    and "\<not> bit (lock_bit L) n \<and> \<not> bit (dirty_bit L) n \<and> \<not> bit (threadid_mask L) n
           \<Longrightarrow> bit w n = bit v n"
  by (auto simp: w_def bit_eq_iff bit_simps dest: bit_imp_le_length)

lemma tid_layoutD:
  assumes "tid_layout L k"
  shows "threadid_mask L = mask k" and "5 \<le> k" and "lock_bit L \<noteq> 0"
    and "lock_bit L AND threadid_mask L = 0"
  using assms unfolding tid_layout_def by blast+

lemma lock_inv_read_locked:
  assumes lay: "tid_layout L k" and u: "u AND lock_bit L = 0"
    and c: "u AND threadid_mask L < rlock_cnt_max"
  shows "lock_inv L ((u AND NOT (threadid_mask L)) OR ((u AND threadid_mask L) + 1))"
proof -
  let ?w = "(u AND NOT (threadid_mask L)) OR ((u AND threadid_mask L) + 1)"
  note m = tid_layoutD(1) [OF lay] and k = tid_layoutD(2) [OF lay]
    and disj = tid_layoutD(4) [OF lay]
  note w = read_lock_word [OF m k c]
  from c have le: "(u AND threadid_mask L) + 1 \<le> rlock_cnt_max" by (rule inc_le)
  have "?w AND lock_bit L = (?w AND NOT (threadid_mask L)) AND lock_bit L"
    using disj by (auto simp: bit_eq_iff bit_simps)
  also have "\<dots> = 0"
    unfolding w(2) using u by (auto simp: bit_eq_iff bit_simps)
  finally show ?thesis
    using le by (simp add: lock_inv_def w(1))
qed

lemma lock_inv_write_locked:
  assumes lay: "tid_layout L k" and u: "u AND lock_bit L = 0" and c: "u AND threadid_mask L = 0"
  shows "lock_inv L (u OR lock_bit L)"
proof -
  note disj = tid_layoutD(4) [OF lay]
  from or_frame(3) [OF disj, of u] c show ?thesis by (simp add: lock_inv_def)
qed

lemma lock_inv_unlock_read:
  assumes lay: "tid_layout L k" and inv: "lock_inv L v" and c: "1 \<le> v AND threadid_mask L"
  shows "lock_inv L (v - 1)"
    and "(v - 1) AND threadid_mask L = (v AND threadid_mask L) - 1"
    and "(v - 1) AND NOT (threadid_mask L) = v AND NOT (threadid_mask L)"
proof -
  note m = tid_layoutD(1) [OF lay] and disj = tid_layoutD(4) [OF lay]
  from c have c': "1 \<le> v AND mask k" by (simp add: m)
  note d = dec_as_replace [OF c']
  note r = low_bits_replace [OF dec_fits [OF c'], of v]
  show cnt: "(v - 1) AND threadid_mask L = (v AND threadid_mask L) - 1"
    unfolding m d by (rule r(1))
  show hi: "(v - 1) AND NOT (threadid_mask L) = v AND NOT (threadid_mask L)"
    unfolding m d by (rule r(2))
  from c have nz: "v AND threadid_mask L \<noteq> 0" by auto
  with inv have u: "v AND lock_bit L = 0" by (auto simp: lock_inv_def)
  have "(v - 1) AND lock_bit L = ((v - 1) AND NOT (threadid_mask L)) AND lock_bit L"
    using disj by (auto simp: bit_eq_iff bit_simps)
  also have "\<dots> = 0"
    unfolding hi using u by (auto simp: bit_eq_iff bit_simps)
  finally have "(v - 1) AND lock_bit L = 0" .
  moreover from c have "(v AND threadid_mask L) - 1 \<le> v AND threadid_mask L"
    by unat_arith
  with inv have "(v AND threadid_mask L) - 1 \<le> rlock_cnt_max"
    by (auto simp: lock_inv_def)
  ultimately show "lock_inv L (v - 1)" by (simp add: lock_inv_def cnt)
qed

lemma lock_inv_unlock_write:
  assumes inv: "lock_inv L v" and l: "is_locked L v"
  shows "lock_inv L (v AND NOT (lock_bit L))"
proof -
  from inv l have z: "v AND threadid_mask L = 0" by (simp add: lock_inv_def is_locked_def)
  then have "(v AND NOT (lock_bit L)) AND threadid_mask L = 0"
    by (auto simp: bit_eq_iff bit_simps)
  then show ?thesis by (simp add: lock_inv_def and_not_frame(1))
qed

lemma try_lock_read_inv:
  assumes lay: "tid_layout L k"
  shows "lock_inv L v \<Longrightarrow> \<forall>(e, e') \<in> set es. preserves L e \<and> preserves L e' \<Longrightarrow>
           try_lock_read L es v = Some (r, w, t) \<Longrightarrow> lock_inv L w"
proof (induction es arbitrary: v t)
  case Nil
  then show ?case by simp
next
  case (Cons a es)
  obtain e e' where a: "a = (e, e')" by (cases a)
  note run = Cons.prems(3) [unfolded a]
  from Cons.prems(2) a have pe: "preserves L e" "preserves L e'"
    and rest: "\<forall>(e, e') \<in> set es. preserves L e \<and> preserves L e'"
    by auto
  show ?case
  proof (cases "v AND lock_bit L \<noteq> 0 \<or> \<not> v AND threadid_mask L < rlock_cnt_max")
    case True
    with run Cons.prems(1) show ?thesis by (auto simp: Let_def split: if_splits)
  next
    case False
    show ?thesis
    proof (cases "e v = v")
      case True
      with False run have "w = (v AND NOT (threadid_mask L)) OR ((v AND threadid_mask L) + 1)"
        by (auto simp: Let_def bool_cmpxchg_def)
      with False lock_inv_read_locked [OF lay, of v] show ?thesis by simp
    next
      case ne: False
      with False run obtain t' where
        rec: "try_lock_read L es (e' (e v)) = Some (r, w, t')"
        by (auto simp: Let_def bool_cmpxchg_def)
      from pe Cons.prems(1) have "lock_inv L (e' (e v))" by (simp add: preserves_def)
      from Cons.IH [OF this rest rec] show ?thesis .
    qed
  qed
qed

lemma try_lock_write_inv:
  assumes lay: "tid_layout L k"
  shows "lock_inv L v \<Longrightarrow> \<forall>(e, e') \<in> set es. preserves L e \<and> preserves L e' \<Longrightarrow>
           try_lock_write L es v = Some (r, w, t) \<Longrightarrow> lock_inv L w"
proof (induction es arbitrary: v t)
  case Nil
  then show ?case by simp
next
  case (Cons a es)
  obtain e e' where a: "a = (e, e')" by (cases a)
  note run = Cons.prems(3) [unfolded a]
  from Cons.prems(2) a have pe: "preserves L e" "preserves L e'"
    and rest: "\<forall>(e, e') \<in> set es. preserves L e \<and> preserves L e'"
    by auto
  show ?case
  proof (cases "v AND lock_bit L \<noteq> 0 \<or> v AND threadid_mask L \<noteq> 0")
    case True
    with run Cons.prems(1) show ?thesis by (auto simp: Let_def split: if_splits)
  next
    case False
    show ?thesis
    proof (cases "e v = v")
      case True
      with False run have "w = v OR lock_bit L"
        by (auto simp: Let_def bool_cmpxchg_def)
      with False lock_inv_write_locked [OF lay, of v] show ?thesis by simp
    next
      case ne: False
      with False run obtain t' where
        rec: "try_lock_write L es (e' (e v)) = Some (r, w, t')"
        by (auto simp: Let_def bool_cmpxchg_def)
      from pe Cons.prems(1) have "lock_inv L (e' (e v))" by (simp add: preserves_def)
      from Cons.IH [OF this rest rec] show ?thesis .
    qed
  qed
qed

lemma run_op_inv:
  assumes lay: "tid_layout L k" and inv: "lock_inv L v" and rely: "rely L op"
    and run: "run_op L op v = Some (Inr w)"
  shows "lock_inv L w"
proof (cases op)
  case (Try_lock_read es)
  with run obtain r t where "try_lock_read L es v = Some (r, w, t)" by auto
  with try_lock_read_inv [OF lay inv] rely Try_lock_read show ?thesis by simp
next
  case (Try_lock_write es)
  with run obtain r t where "try_lock_write L es v = Some (r, w, t)" by auto
  with try_lock_write_inv [OF lay inv] rely Try_lock_write show ?thesis by simp
next
  case Unlock_read
  with run have "1 \<le> v AND threadid_mask L" "w = v - 1"
    by (auto simp: unlock_read_def fetch_and_add_def split: if_splits)
  with lock_inv_unlock_read(1) [OF lay inv] show ?thesis by simp
next
  case Unlock_write
  with run have "is_locked L v" "w = v AND NOT (lock_bit L)"
    by (auto simp: unlock_write_def Let_def split: if_splits)
  with lock_inv_unlock_write [OF inv] show ?thesis by simp
qed

lemma run_ops_inv:
  assumes lay: "tid_layout L k"
  shows "lock_inv L v \<Longrightarrow> \<forall>op \<in> set ops. rely L op \<Longrightarrow> run_ops L ops v = Some (Inr w)
           \<Longrightarrow> lock_inv L w"
proof (induction ops arbitrary: v)
  case Nil
  then show ?case by simp
next
  case (Cons op ops)
  from Cons.prems(3) obtain u where u: "run_op L op v = Some (Inr u)"
    and rest: "run_ops L ops u = Some (Inr w)"
    by (auto split: option.splits sum.splits)
  from Cons.prems(2) have "rely L op" "\<forall>op \<in> set ops. rely L op" by simp_all
  with run_op_inv [OF lay Cons.prems(1) _ u] Cons.IH [OF _ _ rest] show ?case by blast
qed

lemma others_preserves:
  assumes "tid_layout L k" and "\<forall>op \<in> set ops. rely L op"
  shows "preserves L (others L ops)"
  unfolding preserves_def others_def
  using run_ops_inv [OF assms(1) _ assms(2)]
  by (auto split: option.splits sum.splits)

lemma example_tid_layout: "tid_layout example_tid 5"
  by (simp add: tid_layout_def example_tid_def mask_eq_exp_minus_1)

lemma example_swiss_layout: "swiss_layout example_tid"
  by (simp add: swiss_layout_def example_tid_def)

lemma example_tid_simps:
  "threadid_mask example_tid = 0x1F" "lock_bit example_tid = 0x20"
  "opt_bit example_tid = 0x40" "dirty_bit example_tid = 0x80"
  by (simp_all add: example_tid_def)

subsection \<open>Claims\<close>

text \<open>
  C2. For an item that needs unlocking, \<^verbatim>\<open>TSwissVersion::cp_unlock_impl\<close> called by
  thread \<open>here\<close> changes the word only if the word is held by \<open>here\<close>: it then
  clears the lock bit and the dirty bit with a releasing store and keeps every bit
  outside lock bit, dirty bit and owner field. A word that is locked by a different
  thread, or not locked, is left unchanged and nothing is stored.
\<close>

theorem TSwissVersion_cp_unlock_impl_only_if_held:
  assumes "needs_unlock item"
  shows "\<exists>w t. TSwissVersion_cp_unlock_impl L here item v = Inr (w, t) \<and>
           (if is_locked_here L v (scast here)
            then t = [StoreRelease] \<and> w \<noteq> v \<and>
                 w AND lock_bit L = 0 \<and> w AND dirty_bit L = 0 \<and>
                 (\<forall>n. \<not> bit (lock_bit L) n \<and> \<not> bit (dirty_bit L) n \<and>
                      \<not> bit (threadid_mask L) n \<longrightarrow> bit w n = bit v n)
            else w = v \<and> t = []) \<and>
           (w \<noteq> v \<longrightarrow> is_locked_here L v (scast here)) \<and>
           (is_locked L v \<and> \<not> is_locked_here L v (scast here) \<longrightarrow> w = v \<and> t = [])"
proof (cases "is_locked_here L v (scast here)")
  case True
  let ?w = "v AND NOT (lock_bit L OR dirty_bit L OR threadid_mask L)"
  from True have l: "is_locked L v" "v AND lock_bit L \<noteq> 0"
    by (simp_all add: is_locked_here_def is_locked_def)
  with clear_fields(1) [where v = v and L = L] have "?w AND lock_bit L \<noteq> v AND lock_bit L" by simp
  then have ne: "?w \<noteq> v" by auto
  from True l assms have "TSwissVersion_cp_unlock_impl L here item v = Inr (?w, [StoreRelease])"
    by (simp add: TSwissVersion_cp_unlock_impl_def unlock_def)
  with True ne clear_fields [where v = v and L = L] show ?thesis by simp
next
  case False
  with assms have "TSwissVersion_cp_unlock_impl L here item v = Inr (v, [])"
    by (simp add: TSwissVersion_cp_unlock_impl_def unlock_def)
  with False show ?thesis by simp
qed

theorem TSwissVersion_cp_unlock_impl_only_if_held_witness:
  "TSwissVersion_cp_unlock_impl example_tid 3
     \<lparr>needs_unlock = True, has_write = True, has_read = False\<rparr> 0x4A3
     = Inr (0x400, [StoreRelease]) \<and>
   is_locked example_tid 0x422 \<and> \<not> is_locked_here example_tid 0x422 (scast (3 :: 32 word)) \<and>
   TSwissVersion_cp_unlock_impl example_tid 3
     \<lparr>needs_unlock = True, has_write = True, has_read = False\<rparr> 0x422
     = Inr (0x422, []) \<and>
   TSwissVersion_cp_unlock_impl example_tid 3
     \<lparr>needs_unlock = True, has_write = True, has_read = False\<rparr> 0x403
     = Inr (0x403, [])"
proof -
  let ?item = "\<lparr>needs_unlock = True, has_write = True, has_read = False\<rparr>"
  have n: "needs_unlock ?item" by simp
  have h: "is_locked_here example_tid 0x4A3 (scast (3 :: 32 word))"
    "is_locked example_tid 0x422" "\<not> is_locked_here example_tid 0x422 (scast (3 :: 32 word))"
    "\<not> is_locked_here example_tid 0x403 (scast (3 :: 32 word))"
    by (simp_all add: is_locked_def is_locked_here_def example_tid_simps)
  have a: "TSwissVersion_cp_unlock_impl example_tid 3 ?item 0x4A3 = Inr (0x400, [StoreRelease])"
    by (simp add: TSwissVersion_cp_unlock_impl_def unlock_def is_locked_def is_locked_here_def
        example_tid_simps)
  from TSwissVersion_cp_unlock_impl_only_if_held [OF n, of example_tid 3 "0x422"] h
  have b: "TSwissVersion_cp_unlock_impl example_tid 3 ?item 0x422 = Inr (0x422, [])"
    by auto
  from TSwissVersion_cp_unlock_impl_only_if_held [OF n, of example_tid 3 "0x403"] h
  have c: "TSwissVersion_cp_unlock_impl example_tid 3 ?item 0x403 = Inr (0x403, [])"
    by auto
  from TSwissVersion_cp_unlock_impl_only_if_held [OF n, of example_tid 3 "0x4A3"] a b c h
  show ?thesis by simp
qed

text \<open>
  C3. \<^verbatim>\<open>try_lock_read\<close> on a word \<open>v\<close>, with at least one round to run:
  it returns \<^verbatim>\<open>spin\<close> if \<open>v\<close> is write-locked; otherwise \<^verbatim>\<open>optimistic\<close> (with
  \<open>v\<close>) if the reader count is not below \<^verbatim>\<open>rlock_cnt_max\<close>; otherwise, if the
  compare-and-swap succeeds, \<^verbatim>\<open>locked\<close>, and the new word has the reader count of
  \<open>v\<close> plus one and the bits of \<open>v\<close> outside the count. In whichever round the call
  returns \<^verbatim>\<open>locked\<close>, its last step is a successful compare-and-swap on a word \<open>u\<close>
  that is not write-locked and has a count below the maximum, and the word left is
  \<open>u\<close> with the count incremented and every other bit unchanged.
\<close>

theorem try_lock_read_response:
  assumes m: "threadid_mask L = mask k" and k: "5 \<le> k"
  shows "(v AND lock_bit L \<noteq> 0 \<longrightarrow>
            try_lock_read L ((e, e') # es) v = Some ((spin, 0), v, [])) \<and>
         (v AND lock_bit L = 0 \<and> \<not> v AND threadid_mask L < rlock_cnt_max \<longrightarrow>
            try_lock_read L ((e, e') # es) v = Some ((optimistic, v), v, [])) \<and>
         (v AND lock_bit L = 0 \<and> v AND threadid_mask L < rlock_cnt_max \<and> e v = v \<longrightarrow>
            (\<exists>w. try_lock_read L ((e, e') # es) v = Some ((locked, 0), w, [Cmpxchg True]) \<and>
                 w AND threadid_mask L = (v AND threadid_mask L) + 1 \<and>
                 w AND NOT (threadid_mask L) = v AND NOT (threadid_mask L))) \<and>
         (\<forall>sched r w t. try_lock_read L sched v = Some ((locked, r), w, t) \<longrightarrow>
            r = 0 \<and> last t = Cmpxchg True \<and>
            (\<exists>u. u AND lock_bit L = 0 \<and> u AND threadid_mask L < rlock_cnt_max \<and>
                 w AND threadid_mask L = (u AND threadid_mask L) + 1 \<and>
                 w AND NOT (threadid_mask L) = u AND NOT (threadid_mask L)))"
proof (intro conjI impI allI)
  show "try_lock_read L ((e, e') # es) v = Some ((spin, 0), v, [])" if "v AND lock_bit L \<noteq> 0"
    using that by (simp add: Let_def)
  show "try_lock_read L ((e, e') # es) v = Some ((optimistic, v), v, [])"
    if "v AND lock_bit L = 0 \<and> \<not> v AND threadid_mask L < rlock_cnt_max"
    using that by (simp add: Let_def)
  show "\<exists>w. try_lock_read L ((e, e') # es) v = Some ((locked, 0), w, [Cmpxchg True]) \<and>
            w AND threadid_mask L = (v AND threadid_mask L) + 1 \<and>
            w AND NOT (threadid_mask L) = v AND NOT (threadid_mask L)"
    if a: "v AND lock_bit L = 0 \<and> v AND threadid_mask L < rlock_cnt_max \<and> e v = v"
  proof -
    from a have c: "v AND threadid_mask L < rlock_cnt_max" by simp
    from a have "try_lock_read L ((e, e') # es) v =
        Some ((locked, 0), (v AND NOT (threadid_mask L)) OR ((v AND threadid_mask L) + 1), [Cmpxchg True])"
      by (simp add: Let_def bool_cmpxchg_def)
    with read_lock_word [OF m k c] show ?thesis by simp
  qed
next
  fix sched r w t
  assume "try_lock_read L sched v = Some ((locked, r), w, t)"
  from try_lock_read_locked [OF this] obtain u where
    r: "r = 0" "last t = Cmpxchg True" and u: "u AND lock_bit L = 0"
    and c: "u AND threadid_mask L < rlock_cnt_max"
    and w: "w = (u AND NOT (threadid_mask L)) OR ((u AND threadid_mask L) + 1)"
    by blast
  from r show "r = 0" "last t = Cmpxchg True" by simp_all
  from read_lock_word [OF m k c] u c
  show "\<exists>u. u AND lock_bit L = 0 \<and> u AND threadid_mask L < rlock_cnt_max \<and>
                 w AND threadid_mask L = (u AND threadid_mask L) + 1 \<and>
                 w AND NOT (threadid_mask L) = u AND NOT (threadid_mask L)"
    unfolding w by blast
qed

theorem try_lock_read_response_witness:
  "try_lock_read example_tid [quiet] 0x20 = Some ((spin, 0), 0x20, []) \<and>
   try_lock_read example_tid [quiet] 0x10 = Some ((optimistic, 0x10), 0x10, []) \<and>
   try_lock_read example_tid [quiet] 3 = Some ((locked, 0), 4, [Cmpxchg True]) \<and>
   try_lock_read example_tid [((\<lambda>u. u + 1), id), quiet] 3
     = Some ((locked, 0), 5, [Cmpxchg False, RelaxFence, Cmpxchg True])"
proof -
  note m = tid_layoutD(1) [OF example_tid_layout]
  have k: "(5::nat) \<le> 5" by simp
  note T = try_lock_read_response [OF m k]
  have 1: "try_lock_read example_tid [quiet] 0x20 = Some ((spin, 0), 0x20, [])"
    using T [of "0x20" id id "[]"] by (simp add: example_tid_simps quiet_def)
  have 2: "try_lock_read example_tid [quiet] 0x10 = Some ((optimistic, 0x10), 0x10, [])"
    using T [of "0x10" id id "[]"] by (simp add: example_tid_simps quiet_def rlock_cnt_max_def)
  have 3: "try_lock_read example_tid [quiet] 3 = Some ((locked, 0), 4, [Cmpxchg True])"
    using T [of 3 id id "[]"]
    by (simp add: example_tid_simps quiet_def rlock_cnt_max_def bool_cmpxchg_def)
  have 4: "try_lock_read example_tid [((\<lambda>u. u + 1), id), quiet] 3
     = Some ((locked, 0), 5, [Cmpxchg False, RelaxFence, Cmpxchg True])"
    by (simp add: example_tid_simps quiet_def rlock_cnt_max_def bool_cmpxchg_def)
  from 1 2 3 4 show ?thesis by simp
qed

text \<open>
  C4. Start from a word where the reader count is zero if the lock bit is set and the
  count is at most \<^verbatim>\<open>rlock_cnt_max\<close>, and run any sequence of \<^verbatim>\<open>try_lock_read\<close>,
  \<^verbatim>\<open>try_lock_write\<close>, \<^verbatim>\<open>unlock_read\<close> and \<^verbatim>\<open>unlock_write\<close> in which no assertion
  fails, the loops meeting any interference that keeps the same property: the word
  reached has the property again. Moreover \<^verbatim>\<open>try_lock_write\<close> returns \<^verbatim>\<open>spin\<close> on
  a word that is write-locked or has readers, returns \<^verbatim>\<open>locked\<close> only by setting the
  lock bit of a word that is unlocked and without readers, and \<^verbatim>\<open>try_lock_read\<close>
  returns \<^verbatim>\<open>spin\<close> on a write-locked word.
\<close>

theorem lock_inv_reachable:
  assumes lay: "tid_layout L k" and inv: "lock_inv L v0"
    and rely: "\<forall>op \<in> set ops. rely L op"
    and run: "run_ops L ops v0 = Some (Inr v)"
  shows "lock_inv L v \<and>
         (\<forall>e es u. u AND lock_bit L \<noteq> 0 \<or> u AND threadid_mask L \<noteq> 0 \<longrightarrow>
            try_lock_write L (e # es) u = Some (spin, u, [])) \<and>
         (\<forall>es u w t. try_lock_write L es u = Some (locked, w, t) \<longrightarrow>
            (\<exists>u'. u' AND lock_bit L = 0 \<and> u' AND threadid_mask L = 0 \<and> w = u' OR lock_bit L) \<and>
            is_locked L w \<and> w AND threadid_mask L = 0) \<and>
         (\<forall>e es u. u AND lock_bit L \<noteq> 0 \<longrightarrow>
            try_lock_read L (e # es) u = Some ((spin, 0), u, []))"
proof (intro conjI allI impI)
  from lay inv rely run show "lock_inv L v" by (rule run_ops_inv)
next
  fix e :: "'a interference" and es u
  assume "u AND lock_bit L \<noteq> 0 \<or> u AND threadid_mask L \<noteq> 0"
  then show "try_lock_write L (e # es) u = Some (spin, u, [])"
    by (cases e) (auto simp: Let_def)
next
  fix es u w t
  assume "try_lock_write L es u = Some (locked, w, t)"
  from try_lock_write_locked [OF this] obtain u' where
    u': "u' AND lock_bit L = 0 \<and> u' AND threadid_mask L = 0 \<and> w = u' OR lock_bit L"
    by blast
  then show "\<exists>u'. u' AND lock_bit L = 0 \<and> u' AND threadid_mask L = 0 \<and> w = u' OR lock_bit L"
    by blast
  note lb = tid_layoutD(3) [OF lay] and disj = tid_layoutD(4) [OF lay]
  from u' or_frame(1) [of u' "lock_bit L"] lb show "is_locked L w"
    by (simp add: is_locked_def)
  from u' or_frame(3) [OF disj, of u'] show "w AND threadid_mask L = 0" by simp
next
  fix e :: "'a interference" and es u
  assume "u AND lock_bit L \<noteq> 0"
  then show "try_lock_read L (e # es) u = Some ((spin, 0), u, [])"
    by (cases e) (auto simp: Let_def)
qed

theorem lock_inv_reachable_witness:
  "run_ops example_tid
     [Try_lock_read [(others example_tid [Try_lock_read [quiet]], id), quiet],
      Unlock_read, Unlock_read, Try_lock_write [quiet]] 0
     = Some (Inr 0x20) \<and>
   lock_inv example_tid 0x20 \<and>
   try_lock_write example_tid [quiet] 0x20 = Some (spin, 0x20, []) \<and>
   try_lock_write example_tid [quiet] 0x03 = Some (spin, 0x03, []) \<and>
   try_lock_read example_tid [quiet] 0x20 = Some ((spin, 0), 0x20, [])"
proof -
  let ?other = "others example_tid [Try_lock_read [quiet]]"
  let ?ops = "[Try_lock_read [(?other, id), quiet], Unlock_read, Unlock_read,
               Try_lock_write [quiet]] :: (64 word \<Rightarrow> 64 word) lock_op list"
  have inv: "lock_inv example_tid 0"
    by (simp add: lock_inv_def)
  have q: "preserves example_tid id"
    by (simp add: preserves_def)
  have o: "preserves example_tid ?other"
    by (rule others_preserves [OF example_tid_layout]) (simp add: quiet_def q)
  have rely: "\<forall>op \<in> set ?ops. rely example_tid op"
    using o by (simp add: quiet_def q)
  have other: "?other 0 = 1"
    by (simp add: others_def example_tid_simps quiet_def rlock_cnt_max_def bool_cmpxchg_def)
  have run: "run_ops example_tid ?ops 0 = Some (Inr 0x20)"
    by (simp add: other [unfolded quiet_def] example_tid_simps quiet_def rlock_cnt_max_def
        bool_cmpxchg_def unlock_read_def fetch_and_add_def)
  note T = lock_inv_reachable [OF example_tid_layout inv rely run]
  from T have W: "try_lock_write example_tid (e # es) u = Some (spin, u, [])"
    if "u AND lock_bit example_tid \<noteq> 0 \<or> u AND threadid_mask example_tid \<noteq> 0" for e es u
    using that by blast
  from T have R: "try_lock_read example_tid (e # es) u = Some ((spin, 0), u, [])"
    if "u AND lock_bit example_tid \<noteq> 0" for e es u
    using that by blast
  from T have "lock_inv example_tid 0x20" by (rule conjunct1)
  moreover have "try_lock_write example_tid [quiet] 0x20 = Some (spin, 0x20, [])"
    by (rule W) (simp add: example_tid_simps)
  moreover have "try_lock_write example_tid [quiet] 0x03 = Some (spin, 0x03, [])"
    by (rule W) (simp add: example_tid_simps)
  moreover have "try_lock_read example_tid [quiet] 0x20 = Some ((spin, 0), 0x20, [])"
    by (rule R) (simp add: example_tid_simps)
  ultimately show ?thesis using run by simp
qed


text \<open>
  C7. When the word is locked by the calling thread, \<^verbatim>\<open>TSwissVersion::cp_try_lock_impl\<close>
  passes its assertion, stores the word with the dirty bit set, issues a release fence
  and returns true. Lock bit, owner field and every other bit outside the dirty bit
  are unchanged, so the word is still locked by the caller.
\<close>

theorem TSwissVersion_cp_try_lock_impl_sets_dirty:
  assumes layout: "swiss_layout L" and held: "is_locked_here L v (scast tid)"
  shows "\<exists>w. TSwissVersion_cp_try_lock_impl L tid v = Inr (True, w, [Store, ReleaseFence]) \<and>
           w = v OR dirty_bit L \<and>
           w AND dirty_bit L = dirty_bit L \<and>
           w AND lock_bit L = v AND lock_bit L \<and>
           w AND threadid_mask L = v AND threadid_mask L \<and>
           (\<forall>n. \<not> bit (dirty_bit L) n \<longrightarrow> bit w n = bit v n) \<and>
           is_locked_here L w (scast tid)"
  using layout held
  by (simp add: TSwissVersion_cp_try_lock_impl_def read_lock_bit_def swiss_layout_def is_locked_here_def or_frame)

theorem TSwissVersion_cp_try_lock_impl_sets_dirty_witness:
  "is_locked_here example_tid 0x423 (scast (3 :: 32 word)) \<and>
   TSwissVersion_cp_try_lock_impl example_tid 3 0x423 = Inr (True, 0x4A3, [Store, ReleaseFence]) \<and>
   is_locked_here example_tid 0x4A3 (scast (3 :: 32 word))"
proof -
  have held: "is_locked_here example_tid 0x423 (scast (3 :: 32 word))"
    by (simp add: is_locked_here_def example_tid_simps)
  from TSwissVersion_cp_try_lock_impl_sets_dirty [OF example_swiss_layout held] held
  show ?thesis by (simp add: example_tid_simps)
qed

text \<open>
  C8. In the default build, on a write-locked word \<^verbatim>\<open>unlock_write\<close> stores the word
  without the lock bit and then issues a release fence. Every bit outside the lock
  bit is unchanged, in particular the reader-count field and the optimistic-hint bit.
\<close>

theorem unlock_write_clears_lock_bit:
  assumes locked: "is_locked L v"
  shows "\<exists>w. unlock_write L v = Inr (w, [Store, ReleaseFence]) \<and>
           w = v AND NOT (lock_bit L) \<and>
           \<not> is_locked L w \<and>
           (\<forall>n. \<not> bit (lock_bit L) n \<longrightarrow> bit w n = bit v n) \<and>
           (lock_bit L AND threadid_mask L = 0 \<longrightarrow> w AND threadid_mask L = v AND threadid_mask L) \<and>
           (lock_bit L AND opt_bit L = 0 \<longrightarrow> w AND opt_bit L = v AND opt_bit L)"
  using locked by (simp add: unlock_write_def is_locked_def and_not_frame)

theorem unlock_write_clears_lock_bit_witness:
  "is_locked example_tid 0x420 \<and>
   unlock_write example_tid 0x420 = Inr (0x400, [Store, ReleaseFence]) \<and>
   \<not> is_locked example_tid 0x400"
proof -
  have l: "is_locked example_tid 0x420"
    by (simp add: is_locked_def example_tid_simps)
  from unlock_write_clears_lock_bit [OF l] l
  show ?thesis by (auto simp: example_tid_simps)
qed

text \<open>
  C9. On a word that is not write-locked and has at least one reader, \<^verbatim>\<open>try_upgrade\<close>
  returns \<^verbatim>\<open>locked\<close> exactly when the reader count is 1 and its compare-and-swap
  succeeds; the word left then has the lock bit set, reader count zero and all other
  bits unchanged. In every other case it returns \<^verbatim>\<open>spin\<close> and leaves the word as
  it is: after one failed compare-and-swap when the count is 1, without any attempt
  when the count is greater. It makes at most one compare-and-swap attempt.
\<close>

theorem try_upgrade_response:
  assumes lb: "lock_bit L \<noteq> 0" and disj: "lock_bit L AND threadid_mask L = 0"
    and unlocked: "\<not> is_locked L v" and readers: "1 \<le> v AND threadid_mask L"
  shows "\<exists>r w t. try_upgrade L e v = Inr (r, w, t) \<and>
           (r = locked \<or> r = spin) \<and>
           (r = locked \<longleftrightarrow> v AND threadid_mask L = 1 \<and> e v = v) \<and>
           (r = locked \<longrightarrow>
              t = [Cmpxchg True] \<and> w = (v - 1) OR lock_bit L \<and>
              is_locked L w \<and> w AND threadid_mask L = 0 \<and>
              (\<forall>n. \<not> bit (lock_bit L) n \<and> \<not> bit (threadid_mask L) n \<longrightarrow> bit w n = bit v n)) \<and>
           (r = spin \<longrightarrow>
              (if v AND threadid_mask L = 1 then t = [Cmpxchg False] \<and> w = e v
               else t = [] \<and> w = v)) \<and>
           length t \<le> 1"
proof (cases "v AND threadid_mask L = 1")
  case one: True
  show ?thesis
  proof (cases "e v = v")
    case True
    with one unlocked have "try_upgrade L e v = Inr (locked, (v - 1) OR lock_bit L, [Cmpxchg True])"
      by (simp add: try_upgrade_def bool_cmpxchg_def)
    moreover from upgrade_word(1) [OF one disj] lb have "is_locked L ((v - 1) OR lock_bit L)"
      by (simp add: is_locked_def)
    ultimately show ?thesis
      using one True upgrade_word(2,3) [OF one disj] by simp
  next
    case False
    with one unlocked have "try_upgrade L e v = Inr (spin, e v, [Cmpxchg False])"
      by (simp add: try_upgrade_def bool_cmpxchg_def)
    with one False show ?thesis by simp
  qed
next
  case False
  with unlocked readers have "try_upgrade L e v = Inr (spin, v, [])"
    by (simp add: try_upgrade_def)
  with False show ?thesis by simp
qed

theorem try_upgrade_response_witness:
  "try_upgrade example_tid id 0x401 = Inr (locked, 0x420, [Cmpxchg True]) \<and>
   try_upgrade example_tid (\<lambda>u. u + 1) 0x401 = Inr (spin, 0x402, [Cmpxchg False]) \<and>
   try_upgrade example_tid id 0x402 = Inr (spin, 0x402, [])"
proof -
  have lb: "lock_bit example_tid \<noteq> 0" and disj: "lock_bit example_tid AND threadid_mask example_tid = 0"
    by (simp_all add: example_tid_simps)
  have 1: "\<not> is_locked example_tid 0x401" "1 \<le> 0x401 AND threadid_mask example_tid"
    and 2: "\<not> is_locked example_tid 0x402" "1 \<le> 0x402 AND threadid_mask example_tid"
    by (simp_all add: is_locked_def example_tid_simps)
  from try_upgrade_response [OF lb disj 1, of id]
  have a: "try_upgrade example_tid id 0x401 = Inr (locked, 0x420, [Cmpxchg True])"
    by (auto simp: example_tid_simps)
  from try_upgrade_response [OF lb disj 1, of "\<lambda>u. u + 1"]
  have b: "try_upgrade example_tid (\<lambda>u. u + 1) 0x401 = Inr (spin, 0x402, [Cmpxchg False])"
    by (auto simp: example_tid_simps)
  from try_upgrade_response [OF lb disj 2, of id]
  have c: "try_upgrade example_tid id 0x402 = Inr (spin, 0x402, [])"
    by (auto simp: example_tid_simps)
  from a b c show ?thesis by simp
qed

end
